theory Spec2Isabelle
  imports Main
begin

section \<open>Strings and normalisation (wordle\_core.py, \<open>normalize\<close>)\<close>

text \<open>
  A Python \<open>str\<close> is a sequence of code points. The model takes a character to be a
  \<^typ>\<open>char\<close>, one code point below 256 (Latin-1), and a string to be a \<^typ>\<open>string\<close>.
  On that range \<open>str.isspace\<close> holds for the twelve code points listed in \<open>isspace\<close>
  and \<open>str.lower\<close> moves \<open>A..Z\<close> and the accented capitals \<open>0xC0..0xDE\<close> (without the
  multiplication sign \<open>0xD7\<close>) up by 32 and keeps every other character.
\<close>

definition isspace :: "char \<Rightarrow> bool" where
  "isspace c = (of_char c \<in> {9, 10, 11, 12, 13, 28, 29, 30, 31, 32, 133, 160 :: nat})"

definition lower_char :: "char \<Rightarrow> char" where
  "lower_char c =
     (let n = (of_char c :: nat)
      in if (65 \<le> n \<and> n \<le> 90) \<or> (192 \<le> n \<and> n \<le> 222 \<and> n \<noteq> 215)
         then char_of (n + 32) else c)"

text \<open>\<open>w.strip()\<close>: leading and trailing whitespace removed.\<close>

definition strip :: "string \<Rightarrow> string" where
  "strip w = rev (dropWhile isspace (rev (dropWhile isspace w)))"

text \<open>\<open>w.lower()\<close>.\<close>

definition lower :: "string \<Rightarrow> string" where
  "lower w = map lower_char w"

text \<open>\<open>normalize(w) = w.strip().lower()\<close> (the name \<open>normalize\<close> is taken in HOL).\<close>

definition normalize_str :: "string \<Rightarrow> string" where
  "normalize_str w = lower (strip w)"


section \<open>The scorer (wordle\_core.py, \<open>score_guess\<close>)\<close>

text \<open>The token symbols \<open>HIT, PRESENT, MISS = "O", "?", "_"\<close>.\<close>

datatype token = HIT | PRESENT | MISS

text \<open>The exceptions the code raises, with their messages.\<close>

datatype error = ValueError string | TypeError string

text \<open>\<open>remain.get(k, 0)\<close> on the dictionary \<open>remain\<close>.\<close>

definition remain_get :: "(char \<rightharpoonup> int) \<Rightarrow> char \<Rightarrow> int" where
  "remain_get remain k = (case remain k of None \<Rightarrow> 0 | Some v \<Rightarrow> v)"

text \<open>
  The body of the first loop at index \<open>i\<close>, on the pair \<open>(res, remain)\<close>:
  \<^verbatim>\<open>
    if g[i] == a[i]: res[i] = HIT
    else: remain[a[i]] = remain.get(a[i], 0) + 1
  \<close>
\<close>

definition first_pass ::
  "string \<Rightarrow> string \<Rightarrow> nat \<Rightarrow> token list \<times> (char \<rightharpoonup> int) \<Rightarrow> token list \<times> (char \<rightharpoonup> int)" where
  "first_pass a g i st =
     (case st of (res, remain) \<Rightarrow>
        if g ! i = a ! i then (res[i := HIT], remain)
        else (res, remain(a ! i \<mapsto> remain_get remain (a ! i) + 1)))"

text \<open>
  The body of the second loop at index \<open>i\<close>:
  \<^verbatim>\<open>
    if res[i] == HIT: continue
    if remain.get(g[i], 0) > 0:
        res[i] = PRESENT
        remain[g[i]] -= 1
  \<close>
  The decrement reads \<open>remain[g[i]]\<close> under the guard \<open>remain.get(g[i], 0) > 0\<close>, where
  the key is present and both reads agree.
\<close>

definition second_pass ::
  "string \<Rightarrow> nat \<Rightarrow> token list \<times> (char \<rightharpoonup> int) \<Rightarrow> token list \<times> (char \<rightharpoonup> int)" where
  "second_pass g i st =
     (case st of (res, remain) \<Rightarrow>
        if res ! i = HIT then (res, remain)
        else if remain_get remain (g ! i) > 0
             then (res[i := PRESENT], remain(g ! i \<mapsto> remain_get remain (g ! i) - 1))
             else (res, remain))"

text \<open>
  \<open>score_guess(answer, guess)\<close>: both arguments are normalised, a length mismatch raises
  \<open>ValueError\<close>, and the two loops run over \<open>range(len(a))\<close> from
  \<open>res = [MISS] * len(a)\<close> and the empty dictionary.
\<close>

definition score_guess :: "string \<Rightarrow> string \<Rightarrow> error + token list" where
  "score_guess answer guess =
     (let a = normalize_str answer; g = normalize_str guess
      in if length a \<noteq> length g
         then Inl (ValueError ''Guess length must match the answer length.'')
         else Inr (fst (fold (second_pass g) [0..<length a]
                         (fold (first_pass a g) [0..<length a]
                            (replicate (length a) MISS, Map.empty)))))"


section \<open>Configuration and results (wordle\_core.py, \<open>GameConfig\<close>, \<open>RoundResult\<close>)\<close>

record GameConfig =
  max_rounds :: int
  word_list :: "string list"

record RoundResult =
  guess :: string
  tokens :: "token list"
  remaining :: int
  won :: bool
  over :: bool


section \<open>The standard game (wordle\_core.py, \<open>NormalWordleGame\<close>)\<close>

text \<open>
  The round counter starts at 0 and is only ever incremented, so it is a \<^typ>\<open>nat\<close>;
  \<open>max_rounds\<close> and \<open>remaining\<close> are Python integers.
\<close>

record NormalWordleGame =
  answer :: string
  cfg :: GameConfig
  round :: nat
  history :: "RoundResult list"

text \<open>\<open>NormalWordleGame.__init__\<close>.\<close>

definition NormalWordleGame_init :: "string \<Rightarrow> GameConfig \<Rightarrow> NormalWordleGame" where
  "NormalWordleGame_init ans c =
     \<lparr>answer = normalize_str ans, cfg = c, round = 0, history = []\<rparr>"

text \<open>
  \<open>NormalWordleGame.guess_word\<close>. The result pairs what the call returns or raises with
  the object's state afterwards: both checks raise before any field is written, and an
  error of \<open>score_guess\<close> would come after the increment of \<open>round\<close>.
\<close>

definition normal_guess_word ::
  "NormalWordleGame \<Rightarrow> string \<Rightarrow> (error + RoundResult) \<times> NormalWordleGame" where
  "normal_guess_word s w =
     (let word = normalize_str w
      in if length word \<noteq> length (answer s)
         then (Inl (ValueError ''Guess must be same length as answer.''), s)
         else if word \<notin> set (word_list (cfg s))
         then (Inl (ValueError ''Word not found in dictionary.''), s)
         else
           let s1 = s\<lparr>round := round s + 1\<rparr>
           in case score_guess (answer s1) word of
                Inl e \<Rightarrow> (Inl e, s1)
              | Inr toks \<Rightarrow>
                  let won' = list_all (\<lambda>t. t = HIT) toks;
                      over' = (won' \<or> int (round s1) \<ge> max_rounds (cfg s1));
                      rr = \<lparr>guess = word, tokens = toks,
                            remaining = max_rounds (cfg s1) - int (round s1),
                            won = won', over = over'\<rparr>
                  in (Inr rr, s1\<lparr>history := history s1 @ [rr]\<rparr>))"

text \<open>A sequence of calls on one object; a call that raises leaves the state it reached.\<close>

definition normal_play :: "NormalWordleGame \<Rightarrow> string list \<Rightarrow> NormalWordleGame" where
  "normal_play s ws = fold (\<lambda>w st. snd (normal_guess_word st w)) ws s"


section \<open>The cheating host (wordle\_core.py, \<open>CheatingWordleGame\<close>)\<close>

text \<open>
  \<open>candidates\<close> is a Python set; the list holds its members in the order the set is
  iterated, which Python leaves open. \<open>final\<close> is \<open>None\<close> or a word.
\<close>

record CheatingWordleGame =
  cheat_cfg :: GameConfig
  candidates :: "string list"
  final :: "string option"
  cheat_round :: nat

text \<open>\<open>CheatingWordleGame.__init__\<close>: \<open>candidates = set(cfg.word_list)\<close>.\<close>

definition CheatingWordleGame_init :: "GameConfig \<Rightarrow> CheatingWordleGame" where
  "CheatingWordleGame_init c =
     \<lparr>cheat_cfg = c, candidates = remdups (word_list c), final = None, cheat_round = 0\<rparr>"

text \<open>
  The dictionary \<open>buckets\<close>, keyed by \<open>(h, p, pat)\<close>, in insertion order (the order in
  which \<open>buckets.items()\<close> yields it); each value is a set of words.
\<close>

type_synonym bucket_key = "nat \<times> nat \<times> token list"
type_synonym buckets = "(bucket_key \<times> string list) list"

text \<open>\<open>buckets.setdefault(k, set()).add(c)\<close>.\<close>

fun setdefault_add :: "bucket_key \<Rightarrow> string \<Rightarrow> buckets \<Rightarrow> buckets" where
  "setdefault_add k c [] = [(k, [c])]"
| "setdefault_add k c ((k', s) # bs) =
     (if k' = k then (k', List.insert c s) # bs else (k', s) # setdefault_add k c bs)"

text \<open>
  The key of candidate \<open>c\<close> for the pattern \<open>pat = tuple(score_guess(c, word))\<close>:
  \<open>h = sum(t == HIT for t in pat)\<close>, \<open>p = sum(t == PRESENT for t in pat)\<close>.
\<close>

definition pattern_key :: "token list \<Rightarrow> bucket_key" where
  "pattern_key pat = (count_list pat HIT, count_list pat PRESENT, pat)"

text \<open>The partition loop over the candidates; an error of \<open>score_guess\<close> ends it.\<close>

fun partition_candidates :: "string list \<Rightarrow> string \<Rightarrow> buckets \<Rightarrow> error + buckets" where
  "partition_candidates [] word bs = Inr bs"
| "partition_candidates (c # cs) word bs =
     (case score_guess c word of
        Inl e \<Rightarrow> Inl e
      | Inr pat \<Rightarrow> partition_candidates cs word (setdefault_add (pattern_key pat) c bs))"

text \<open>
  The body of the selection loop on \<open>(best_key, best_set)\<close>. \<open>not best_key\<close> holds for
  \<open>None\<close> only: a key is a 3-tuple, which is never falsy. The comparison of the pairs
  \<open>(h, p) < (bh, bp)\<close> is lexicographic.
\<close>

fun select_step ::
  "bucket_key \<times> string list \<Rightarrow> bucket_key option \<times> string list \<Rightarrow> bucket_key option \<times> string list"
  where
  "select_step (k, s) (None, best_set) = (Some k, s)"
| "select_step ((h, p, pat), s) (Some (bh, bp, bpat), best_set) =
     (if (h < bh \<or> (h = bh \<and> p < bp)) \<or> ((h = bh \<and> p = bp) \<and> length s > length best_set)
      then (Some (h, p, pat), s)
      else (Some (bh, bp, bpat), best_set))"

definition select_best :: "buckets \<Rightarrow> bucket_key option \<times> string list" where
  "select_best bs = fold select_step bs (None, [])"

text \<open>
  The narrowing path of \<open>CheatingWordleGame.guess_word\<close> (from \<open>self.round += 1\<close> on) for
  the normalised \<open>word\<close>. With no bucket at all \<open>best_key\<close> stays \<open>None\<close> and
  \<open>best_key[2]\<close> raises \<open>TypeError\<close>, after \<open>candidates\<close> was assigned the empty set.
\<close>

definition cheat_narrow ::
  "CheatingWordleGame \<Rightarrow> string \<Rightarrow> (error + RoundResult) \<times> CheatingWordleGame" where
  "cheat_narrow s word =
     (let s1 = s\<lparr>cheat_round := cheat_round s + 1\<rparr>
      in case partition_candidates (candidates s1) word [] of
           Inl e \<Rightarrow> (Inl e, s1)
         | Inr bs \<Rightarrow>
             (case select_best bs of
                (None, best_set) \<Rightarrow>
                  (Inl (TypeError ''NoneType object is not subscriptable''),
                   s1\<lparr>candidates := best_set\<rparr>)
              | (Some (h, p, pat), best_set) \<Rightarrow>
                  let s2 = s1\<lparr>candidates := best_set\<rparr>;
                      s3 = (case candidates s2 of
                              [c] \<Rightarrow> s2\<lparr>final := Some c\<rparr>
                            | _ \<Rightarrow> s2);
                      over' = (int (cheat_round s3) \<ge> max_rounds (cheat_cfg s3));
                      rr = \<lparr>guess = word, tokens = pat,
                            remaining = max_rounds (cheat_cfg s3) - int (cheat_round s3),
                            won = False, over = over'\<rparr>
                  in (Inr rr, s3)))"

text \<open>
  \<open>CheatingWordleGame.guess_word\<close>. \<open>if self.final:\<close> holds for a non-empty word; the
  delegated call runs on a \<open>NormalWordleGame\<close> built for this one call, whose state is
  dropped when the call returns.
\<close>

definition cheating_guess_word ::
  "CheatingWordleGame \<Rightarrow> string \<Rightarrow> (error + RoundResult) \<times> CheatingWordleGame" where
  "cheating_guess_word s w =
     (let word = normalize_str w
      in if word \<notin> set (word_list (cheat_cfg s))
         then (Inl (ValueError ''Word not found in dictionary.''), s)
         else case final s of
                None \<Rightarrow> cheat_narrow s word
              | Some f \<Rightarrow>
                  if f \<noteq> []
                  then (fst (normal_guess_word (NormalWordleGame_init f (cheat_cfg s)) word), s)
                  else cheat_narrow s word)"

definition cheating_play :: "CheatingWordleGame \<Rightarrow> string list \<Rightarrow> CheatingWordleGame" where
  "cheating_play s ws = fold (\<lambda>w st. snd (cheating_guess_word st w)) ws s"


section \<open>The multiplayer room (server.py, \<open>MultiRoom\<close> and the guess branch of \<open>Handler.handle\<close>)\<close>

text \<open>
  A connection (a \<open>StreamRequestHandler\<close>) is named by a number. The transport is outside
  the program: \<open>alive h\<close> says whether a write to \<open>h\<close> succeeds. Every write the code
  attempts is recorded, in program order, as the pair of the connection and the JSON
  object written.
\<close>

type_synonym conn = nat

record guess_data =
  data_player :: string
  data_tokens :: "token list"
  data_won :: bool
  data_over :: bool
  data_remaining :: int

datatype message =
    Error_reply string
  | Guess_ack guess_data
  | Guess_event guess_data
  | Game_over_event string

record MultiRoom =
  room_answer :: string
  game :: NormalWordleGame
  players :: "string list"
  streams :: "conn list"
  room_over :: bool

text \<open>\<open>str(e)\<close> for the exceptions above.\<close>

fun error_str :: "error \<Rightarrow> string" where
  "error_str (ValueError m) = m"
| "error_str (TypeError m) = m"

text \<open>\<open>send_json(handler, obj)\<close>: one write to one client; a failure is swallowed.\<close>

definition send_json :: "conn \<Rightarrow> message \<Rightarrow> (conn \<times> message) list" where
  "send_json h obj = [(h, obj)]"

text \<open>
  \<open>broadcast(room, msg)\<close>: one write to every member of \<open>room.streams\<close>; the connections
  whose write failed are discarded from \<open>room.streams\<close> afterwards.
\<close>

definition broadcast ::
  "(conn \<Rightarrow> bool) \<Rightarrow> MultiRoom \<Rightarrow> message \<Rightarrow> MultiRoom \<times> (conn \<times> message) list" where
  "broadcast alive room msg =
     (room\<lparr>streams := filter alive (streams room)\<rparr>, map (\<lambda>h. (h, msg)) (streams room))"

text \<open>
  The multiplayer branch of \<open>act == "guess"\<close> for the handler \<open>self\<close>, with
  \<open>word = req.get("word", "").lower()\<close>. Under the room's lock: attach the stream, reject
  when the room is over, try the guess, decide the winner (\<open>if winner:\<close> needs a non-empty
  player name). After the lock: the ack, the \<open>guess\<close> broadcast, and the \<open>game_over\<close>
  broadcast when a winner was decided.
\<close>

definition handle_guess_multi ::
  "(conn \<Rightarrow> bool) \<Rightarrow> conn \<Rightarrow> string \<Rightarrow> string \<Rightarrow> MultiRoom \<Rightarrow> MultiRoom \<times> (conn \<times> message) list"
  where
  "handle_guess_multi alive self player w room =
     (let word = lower w;
          room1 = (if self \<notin> set (streams room)
                   then room\<lparr>streams := streams room @ [self]\<rparr> else room)
      in if room_over room1
         then (room1, send_json self (Error_reply ''Game already over.''))
         else case normal_guess_word (game room1) word of
                (Inl e, g') \<Rightarrow> (room1\<lparr>game := g'\<rparr>, send_json self (Error_reply (error_str e)))
              | (Inr rr, g') \<Rightarrow>
                  let room2 = room1\<lparr>game := g'\<rparr>;
                      data = \<lparr>data_player = player, data_tokens = tokens rr, data_won = won rr,
                              data_over = over rr, data_remaining = remaining rr\<rparr>;
                      winner = (won rr \<and> \<not> room_over room2 \<and> player \<noteq> []);
                      room3 = (if winner then room2\<lparr>room_over := True\<rparr> else room2);
                      out1 = send_json self (Guess_ack data);
                      (room4, out2) = broadcast alive room3 (Guess_event data)
                  in if winner
                     then let (room5, out3) = broadcast alive room4 (Game_over_event player)
                          in (room5, out1 @ out2 @ out3)
                     else (room4, out1 @ out2))"

section \<open>Notions used in the proofs\<close>

text \<open>
  The state \<open>(res, remain)\<close> after \<open>n\<close> iterations of the first loop, and after the whole
  first loop followed by \<open>n\<close> iterations of the second.
\<close>

definition after_first :: "string \<Rightarrow> string \<Rightarrow> nat \<Rightarrow> token list \<times> (char \<rightharpoonup> int)" where
  "after_first a g n = fold (first_pass a g) [0..<n] (replicate (length a) MISS, Map.empty)"

definition after_second :: "string \<Rightarrow> string \<Rightarrow> nat \<Rightarrow> token list \<times> (char \<rightharpoonup> int)" where
  "after_second a g n = fold (second_pass g) [0..<n] (after_first a g (length a))"

text \<open>The invariant of a standard game: the answer is normalised and every round is in the history.\<close>

definition normal_inv :: "NormalWordleGame \<Rightarrow> bool" where
  "normal_inv s = (normalize_str (answer s) = answer s \<and> length (history s) = round s)"

text \<open>the key under which the loop files the candidate \<open>c\<close>\<close>
definition key_of :: "string \<Rightarrow> string \<Rightarrow> bucket_key" where
  "key_of word c = (case score_guess c word of Inr pat \<Rightarrow> pattern_key pat | Inl e \<Rightarrow> (0, 0, []))"

text \<open>the buckets after the candidates \<open>X\<close> were filed under the keys \<open>kf\<close>\<close>
definition buckets_of :: "(string \<Rightarrow> bucket_key) \<Rightarrow> string set \<Rightarrow> buckets \<Rightarrow> bool" where
  "buckets_of kf X bs =
     (distinct (map fst bs) \<and>
      (\<forall>k. case map_of bs k of
              None \<Rightarrow> k \<notin> kf ` X
            | Some s \<Rightarrow> s \<noteq> [] \<and> distinct s \<and> set s = {c \<in> X. kf c = k}))"

text \<open>
  \<open>no_worse x y\<close>: the bucket \<open>x\<close> is at least as good for the host as \<open>y\<close>: fewer hits,
  then fewer presents, then at least as many words.
\<close>
definition no_worse :: "bucket_key \<times> string list \<Rightarrow> bucket_key \<times> string list \<Rightarrow> bool" where
  "no_worse x y =
     (fst (fst x) < fst (fst y) \<or>
      (fst (fst x) = fst (fst y) \<and>
       (fst (snd (fst x)) < fst (snd (fst y)) \<or>
        (fst (snd (fst x)) = fst (snd (fst y)) \<and> length (snd y) \<le> length (snd x)))))"


section \<open>Normalisation is idempotent\<close>

lemma isspace_lower_char: "isspace (lower_char c) = isspace c"
  by (auto simp: isspace_def lower_char_def Let_def)

lemma lower_char_idem: "lower_char (lower_char c) = lower_char c"
  by (auto simp: lower_char_def Let_def)

lemma lower_idem: "lower (lower w) = lower w"
  by (simp add: lower_def lower_char_idem)

lemma dropWhile_lower: "dropWhile isspace (lower w) = lower (dropWhile isspace w)"
  by (induction w) (auto simp: lower_def isspace_lower_char)

lemma strip_lower: "strip (lower w) = lower (strip w)"
proof -
  have r: "rev (lower xs) = lower (rev xs)" for xs
    by (simp add: lower_def rev_map)
  show ?thesis
    by (simp add: strip_def dropWhile_lower r)
qed

lemma dropWhile_noop: "xs = [] \<or> \<not> P (hd xs) \<Longrightarrow> dropWhile P xs = xs"
  by (cases xs) auto

lemma last_dropWhile_keep:
  "xs \<noteq> [] \<Longrightarrow> \<not> P (last xs) \<Longrightarrow> dropWhile P xs \<noteq> [] \<and> last (dropWhile P xs) = last xs"
  by (induction xs) auto

lemma strip_idem: "strip (strip w) = strip w"
proof -
  define xs where "xs = dropWhile isspace w"
  define zs where "zs = dropWhile isspace (rev xs)"
  have hx: "xs = [] \<or> \<not> isspace (hd xs)"
    unfolding xs_def by (metis hd_dropWhile)
  have hz: "rev zs = [] \<or> \<not> isspace (hd (rev zs))"
  proof (cases "xs = []")
    case True
    then show ?thesis by (simp add: zs_def)
  next
    case False
    with hx have "\<not> isspace (last (rev xs))"
      by (simp add: last_rev)
    with False have "zs \<noteq> [] \<and> last zs = last (rev xs)"
      unfolding zs_def using last_dropWhile_keep[of "rev xs" isspace] by simp
    with hx False show ?thesis
      by (simp add: hd_rev last_rev)
  qed
  have "dropWhile isspace (rev zs) = rev zs"
    using hz by (rule dropWhile_noop)
  moreover have "dropWhile isspace zs = zs"
    unfolding zs_def by simp
  ultimately show ?thesis
    by (simp add: strip_def xs_def[symmetric] zs_def[symmetric])
qed

lemma normalize_idem: "normalize_str (normalize_str w) = normalize_str w"
  by (simp add: normalize_str_def strip_lower strip_idem lower_idem)


section \<open>Claims about the scorer\<close>

text \<open>
  C8 as the spec states it: scoring the target \<open>crane\<close> against the guess \<open>arena\<close> gives
  five \<open>PRESENT\<close> tokens. The code does not: \<open>r\<close> and \<open>n\<close> sit at the same positions in
  both words.
\<close>

theorem C8_all_present_counterexample:
  "score_guess ''crane'' ''arena'' \<noteq> Inr [PRESENT, PRESENT, PRESENT, PRESENT, PRESENT]"
  by code_simp

text \<open>
  C8, amended: scoring the target \<open>crane\<close> against the guess \<open>arena\<close> yields
  \<open>[PRESENT, HIT, PRESENT, HIT, MISS]\<close>: positions 1 and 3 match, the first \<open>a\<close> and the
  \<open>e\<close> are present elsewhere, and the second \<open>a\<close> has no occurrence left in the target.
\<close>

theorem C8_crane_arena:
  "score_guess ''crane'' ''arena'' = Inr [PRESENT, HIT, PRESENT, HIT, MISS]"
  by code_simp


subsection \<open>Whitespace around a word and capitals in it\<close>

lemma strip_padding:
  assumes l: "\<forall>c\<in>set l. isspace c" and r: "\<forall>c\<in>set r. isspace c"
  shows "strip (l @ w @ r) = strip w"
proof -
  have lead: "dropWhile isspace (l @ w @ r) = dropWhile isspace (w @ r)"
    using l by simp
  have "rev (dropWhile isspace (rev (dropWhile isspace (w @ r))))
        = rev (dropWhile isspace (rev (dropWhile isspace w)))"
  proof (cases "\<forall>c\<in>set w. isspace c")
    case True
    with r have "\<forall>c\<in>set (w @ r). isspace c" by auto
    then have a: "dropWhile isspace (w @ r) = []"
      unfolding dropWhile_eq_Nil_conv .
    from True have b: "dropWhile isspace w = []"
      unfolding dropWhile_eq_Nil_conv .
    show ?thesis unfolding a b ..
  next
    case False
    then obtain c where "c \<in> set w" "\<not> isspace c" by blast
    then have "dropWhile isspace (w @ r) = dropWhile isspace w @ r"
      by (rule dropWhile_append1)
    then have e: "dropWhile isspace (w @ r) = dropWhile isspace w @ r" .
    from r have "\<And>c. c \<in> set (rev r) \<Longrightarrow> isspace c" by simp
    then have "dropWhile isspace (rev r @ rev (dropWhile isspace w))
               = dropWhile isspace (rev (dropWhile isspace w))"
      by (rule dropWhile_append2)
    then show ?thesis unfolding e by simp
  qed
  with lead show ?thesis by (simp add: strip_def)
qed

lemma lower_char_capital:
  assumes "v = u \<or>
     (((65 \<le> (of_char u :: nat) \<and> (of_char u :: nat) \<le> 90) \<or>
       (192 \<le> (of_char u :: nat) \<and> (of_char u :: nat) \<le> 222 \<and> (of_char u :: nat) \<noteq> 215)) \<and>
      (of_char v :: nat) = of_char u + 32)"
  shows "lower_char u = lower_char v"
proof (cases "v = u")
  case True
  then show ?thesis by simp
next
  case False
  with assms have cap: "(65 \<le> (of_char u :: nat) \<and> (of_char u :: nat) \<le> 90) \<or>
       (192 \<le> (of_char u :: nat) \<and> (of_char u :: nat) \<le> 222 \<and> (of_char u :: nat) \<noteq> 215)"
    and v: "(of_char v :: nat) = of_char u + 32" by auto
  have "char_of (of_char v :: nat) = v" by simp
  with v have uv: "char_of ((of_char u :: nat) + 32) = v" by simp
  from cap have lu: "lower_char u = v" by (simp add: lower_char_def Let_def uv)
  from cap v have lv: "lower_char v = v" by (auto simp: lower_char_def Let_def)
  from lu lv show ?thesis by simp
qed

lemma lower_capitals:
  "list_all2 (\<lambda>u v. v = u \<or>
     (((65 \<le> (of_char u :: nat) \<and> (of_char u :: nat) \<le> 90) \<or>
       (192 \<le> (of_char u :: nat) \<and> (of_char u :: nat) \<le> 222 \<and> (of_char u :: nat) \<noteq> 215)) \<and>
      (of_char v :: nat) = of_char u + 32)) tU t \<Longrightarrow> lower tU = lower t"
proof (induction rule: list_all2_induct)
  case Nil
  show ?case by (simp add: lower_def)
next
  case (Cons u us v vs)
  from lower_char_capital[OF Cons.hyps(1)] Cons.IH show ?case by (simp add: lower_def)
qed

lemma normalize_padded_capitals:
  assumes "\<forall>c\<in>set l. isspace c" and "\<forall>c\<in>set r. isspace c" and "lower tU = lower t"
  shows "normalize_str (l @ tU @ r) = normalize_str t"
proof -
  have "normalize_str (l @ tU @ r) = lower (strip tU)"
    using assms(1,2) by (simp add: normalize_str_def strip_padding)
  also have "\<dots> = strip (lower tU)" by (simp add: strip_lower)
  also have "\<dots> = normalize_str t" using assms(3) by (simp add: strip_lower normalize_str_def)
  finally show ?thesis .
qed

lemma score_guess_cong:
  "normalize_str t' = normalize_str t \<Longrightarrow> normalize_str g' = normalize_str g \<Longrightarrow>
     score_guess t' g' = score_guess t g"
  by (simp add: score_guess_def)

text \<open>
  C10: \<open>score_guess t g\<close> equals the score of the normalised arguments, and the result
  (the raised error included) is insensitive to surrounding whitespace and to letter case
  of either input: padding the target and the guess on both sides with whitespace (any of
  the twelve code points \<open>str.isspace\<close> accepts below 256) and replacing any of their
  letters by the capital (\<open>A..Z\<close> and the accented capitals, 32 code points below the
  small letter) leaves the score unchanged.
\<close>

theorem C10_score_guess_normalizes:
  assumes "\<forall>c\<in>set (l1 @ r1 @ l2 @ r2).
             (of_char c :: nat) \<in> {9, 10, 11, 12, 13, 28, 29, 30, 31, 32, 133, 160}"
    and "list_all2 (\<lambda>u v. v = u \<or>
           (((65 \<le> (of_char u :: nat) \<and> (of_char u :: nat) \<le> 90) \<or>
             (192 \<le> (of_char u :: nat) \<and> (of_char u :: nat) \<le> 222 \<and> (of_char u :: nat) \<noteq> 215)) \<and>
            (of_char v :: nat) = of_char u + 32)) tU t"
    and "list_all2 (\<lambda>u v. v = u \<or>
           (((65 \<le> (of_char u :: nat) \<and> (of_char u :: nat) \<le> 90) \<or>
             (192 \<le> (of_char u :: nat) \<and> (of_char u :: nat) \<le> 222 \<and> (of_char u :: nat) \<noteq> 215)) \<and>
            (of_char v :: nat) = of_char u + 32)) gU g"
  shows "score_guess (l1 @ tU @ r1) (l2 @ gU @ r2) = score_guess t g \<and>
         score_guess t g = score_guess (normalize_str t) (normalize_str g)"
proof -
  from assms(1) have ws: "\<forall>c\<in>set l1. isspace c" "\<forall>c\<in>set r1. isspace c"
      "\<forall>c\<in>set l2. isspace c" "\<forall>c\<in>set r2. isspace c"
    by (auto simp: isspace_def)
  have nt: "normalize_str (l1 @ tU @ r1) = normalize_str t"
    using ws(1,2) lower_capitals[OF assms(2)] by (rule normalize_padded_capitals)
  have ng: "normalize_str (l2 @ gU @ r2) = normalize_str g"
    using ws(3,4) lower_capitals[OF assms(3)] by (rule normalize_padded_capitals)
  have "score_guess (l1 @ tU @ r1) (l2 @ gU @ r2) = score_guess t g"
    using nt ng by (rule score_guess_cong)
  moreover have "score_guess t g = score_guess (normalize_str t) (normalize_str g)"
    by (simp add: score_guess_def normalize_idem)
  ultimately show ?thesis by simp
qed

text \<open>
  C10 at the target \<open>CrAnE\<close> behind a space and a tab and before a newline, and the guess
  \<open>ARENA\<close> before a space: the score is that of \<open>crane\<close> and \<open>arena\<close>.
\<close>

theorem C10_score_guess_normalizes_witness:
  "score_guess ([CHR 0x20, CHR 0x09] @ ''CrAnE'' @ [CHR 0x0A]) ([] @ ''ARENA'' @ [CHR 0x20])
     = score_guess ''crane'' ''arena'' \<and>
   score_guess [CHR 0x20, CHR 0x09, CHR ''C'', CHR ''r'', CHR ''A'', CHR ''n'', CHR ''E'', CHR 0x0A]
               ''ARENA ''
     = Inr [PRESENT, HIT, PRESENT, HIT, MISS] \<and>
   score_guess ''crane'' ''arena'' = score_guess (normalize_str ''crane'') (normalize_str ''arena'')"
proof -
  have ws: "\<forall>c\<in>set ([CHR 0x20, CHR 0x09] @ [CHR 0x0A] @ [] @ [CHR 0x20]).
             (of_char c :: nat) \<in> {9, 10, 11, 12, 13, 28, 29, 30, 31, 32, 133, 160}"
    by simp
  have t: "list_all2 (\<lambda>u v. v = u \<or>
           (((65 \<le> (of_char u :: nat) \<and> (of_char u :: nat) \<le> 90) \<or>
             (192 \<le> (of_char u :: nat) \<and> (of_char u :: nat) \<le> 222 \<and> (of_char u :: nat) \<noteq> 215)) \<and>
            (of_char v :: nat) = of_char u + 32)) ''CrAnE'' ''crane''"
    by simp
  have g: "list_all2 (\<lambda>u v. v = u \<or>
           (((65 \<le> (of_char u :: nat) \<and> (of_char u :: nat) \<le> 90) \<or>
             (192 \<le> (of_char u :: nat) \<and> (of_char u :: nat) \<le> 222 \<and> (of_char u :: nat) \<noteq> 215)) \<and>
            (of_char v :: nat) = of_char u + 32)) ''ARENA'' ''arena''"
    by simp
  have v: "score_guess [CHR 0x20, CHR 0x09, CHR ''C'', CHR ''r'', CHR ''A'', CHR ''n'', CHR ''E'', CHR 0x0A]
               ''ARENA '' = Inr [PRESENT, HIT, PRESENT, HIT, MISS]"
    by code_simp
  from C10_score_guess_normalizes[OF ws t g] v show ?thesis by simp
qed


section \<open>Loop invariants of the scorer\<close>

lemma after_first_0: "after_first a g 0 = (replicate (length a) MISS, Map.empty)"
  by (simp add: after_first_def)

lemma after_first_Suc: "after_first a g (Suc n) = first_pass a g n (after_first a g n)"
  by (simp add: after_first_def)

lemma after_second_0: "after_second a g 0 = after_first a g (length a)"
  by (simp add: after_second_def)

lemma after_second_Suc: "after_second a g (Suc n) = second_pass g n (after_second a g n)"
  by (simp add: after_second_def)

lemma remain_get_upd: "remain_get (m(k \<mapsto> v)) c = (if c = k then v else remain_get m c)"
  by (simp add: remain_get_def)

lemma fst_first_pass:
  "fst (first_pass a g i st) = (if g ! i = a ! i then (fst st)[i := HIT] else fst st)"
  by (simp add: first_pass_def split_def)

lemma remain_first_pass:
  "remain_get (snd (first_pass a g i st)) c =
     (if g ! i \<noteq> a ! i \<and> a ! i = c then remain_get (snd st) c + 1 else remain_get (snd st) c)"
  by (simp add: first_pass_def split_def remain_get_upd)

lemma first_length: "length (fst (after_first a g n)) = length a"
  by (induction n) (simp_all add: after_first_0 after_first_Suc fst_first_pass)

lemma first_remain:
  "remain_get (snd (after_first a g n)) c =
     int (length (filter (\<lambda>i. a ! i = c \<and> g ! i \<noteq> a ! i) [0..<n]))"
proof (induction n)
  case 0
  show ?case by (simp add: after_first_0 remain_get_def)
next
  case (Suc n)
  then show ?case by (auto simp: after_first_Suc remain_first_pass)
qed

lemma first_tokens:
  "i < length a \<Longrightarrow>
     fst (after_first a g n) ! i = (if i < n \<and> g ! i = a ! i then HIT else MISS)"
  by (induction n)
     (auto simp: after_first_0 after_first_Suc fst_first_pass first_length nth_list_update less_Suc_eq)

lemma fst_second_pass:
  "fst (second_pass g i st) =
     (if fst st ! i \<noteq> HIT \<and> remain_get (snd st) (g ! i) > 0 then (fst st)[i := PRESENT] else fst st)"
  by (simp add: second_pass_def split_def)

lemma remain_second_pass:
  "remain_get (snd (second_pass g i st)) c =
     (if fst st ! i \<noteq> HIT \<and> remain_get (snd st) (g ! i) > 0 \<and> g ! i = c
      then remain_get (snd st) c - 1 else remain_get (snd st) c)"
  by (auto simp: second_pass_def split_def remain_get_upd)

lemma second_length: "length (fst (after_second a g n)) = length a"
  by (induction n) (simp_all add: after_second_0 after_second_Suc fst_second_pass first_length)

lemma second_remain_nonneg: "0 \<le> remain_get (snd (after_second a g n)) c"
  by (induction n) (auto simp: after_second_0 after_second_Suc remain_second_pass first_remain)

text \<open>positions not yet visited by the second loop still hold the first loop's token\<close>
lemma second_untouched:
  "n \<le> i \<Longrightarrow> i < length a \<Longrightarrow>
     fst (after_second a g n) ! i = fst (after_first a g (length a)) ! i"
  by (induction n) (auto simp: after_second_0 after_second_Suc fst_second_pass)

lemma second_hit:
  "i < length a \<Longrightarrow> (fst (after_second a g n) ! i = HIT) = (g ! i = a ! i)"
proof (induction n)
  case 0
  then show ?case by (simp add: after_second_0 first_tokens)
next
  case (Suc n)
  have "(xs[n := PRESENT] ! i = HIT) = (xs ! i = HIT)"
    if "i < length xs" "xs ! n \<noteq> HIT" for xs :: "token list"
    using that by (cases "i = n") simp_all
  with Suc show ?case
    by (simp add: after_second_Suc fst_second_pass second_length)
qed

text \<open>a visited position keeps its token in the later iterations\<close>
lemma second_stable:
  "i < n \<Longrightarrow> fst (after_second a g (Suc n)) ! i = fst (after_second a g n) ! i"
  by (simp add: after_second_Suc fst_second_pass)

lemma second_present_count:
  "n \<le> length a \<Longrightarrow>
     int (length (filter (\<lambda>i. g ! i = c \<and> fst (after_second a g n) ! i = PRESENT) [0..<n]))
       + remain_get (snd (after_second a g n)) c
     = remain_get (snd (after_first a g (length a))) c"
proof (induction n)
  case 0
  then show ?case by (simp add: after_second_0)
next
  case (Suc n)
  then have n: "n < length a" by simp
  have old: "filter (\<lambda>i. g ! i = c \<and> fst (after_second a g (Suc n)) ! i = PRESENT) [0..<n]
           = filter (\<lambda>i. g ! i = c \<and> fst (after_second a g n) ! i = PRESENT) [0..<n]"
    by (rule filter_cong) (simp_all add: second_stable)
  have cur: "fst (after_second a g n) ! n = fst (after_first a g (length a)) ! n"
    using n by (simp add: second_untouched)
  have new: "(fst (after_second a g (Suc n)) ! n = PRESENT) =
             (fst (after_second a g n) ! n \<noteq> HIT \<and> 0 < remain_get (snd (after_second a g n)) (g ! n))"
    using n cur by (auto simp: after_second_Suc fst_second_pass second_length first_tokens)
  have rem: "remain_get (snd (after_second a g (Suc n))) c =
     (if fst (after_second a g n) ! n \<noteq> HIT \<and> remain_get (snd (after_second a g n)) (g ! n) > 0 \<and> g ! n = c
      then remain_get (snd (after_second a g n)) c - 1 else remain_get (snd (after_second a g n)) c)"
    by (simp add: after_second_Suc remain_second_pass)
  from Suc.IH n have ih:
    "int (length (filter (\<lambda>i. g ! i = c \<and> fst (after_second a g n) ! i = PRESENT) [0..<n]))
       + remain_get (snd (after_second a g n)) c
     = remain_get (snd (after_first a g (length a))) c" by simp
  show ?case
    using ih by (cases "g ! n = c") (simp_all add: old new rem del: upt_Suc add: upt_Suc_append)
qed


lemma score_guess_after_second:
  "length (normalize_str t) = length (normalize_str g) \<Longrightarrow>
     score_guess t g =
       Inr (fst (after_second (normalize_str t) (normalize_str g) (length (normalize_str t))))"
  by (simp add: score_guess_def after_second_def after_first_def Let_def)

lemma count_list_index:
  "count_list a c = length (filter (\<lambda>i. a ! i = c) [0..<length a])"
proof (induction a rule: rev_induct)
  case Nil
  show ?case by simp
next
  case (snoc x xs)
  have "filter (\<lambda>i. (xs @ [x]) ! i = c) [0..<length xs] = filter (\<lambda>i. xs ! i = c) [0..<length xs]"
    by (rule filter_cong) (simp_all add: nth_append)
  with snoc show ?case by simp
qed

lemma length_filter_split:
  "length (filter (\<lambda>i. P i) xs) =
     length (filter (\<lambda>i. P i \<and> Q i) xs) + length (filter (\<lambda>i. P i \<and> \<not> Q i) xs)"
  by (induction xs) auto

lemma hit_or_present_bound:
  assumes len: "length a = length g"
  shows "length (filter (\<lambda>i. g ! i = c \<and>
            (fst (after_second a g (length a)) ! i = HIT \<or>
             fst (after_second a g (length a)) ! i = PRESENT)) [0..<length a])
         \<le> count_list a c"
proof -
  let ?res = "fst (after_second a g (length a))"
  let ?idx = "[0..<length a]"
  have split: "length (filter (\<lambda>i. g ! i = c \<and> (?res ! i = HIT \<or> ?res ! i = PRESENT)) ?idx)
      = length (filter (\<lambda>i. (g ! i = c \<and> (?res ! i = HIT \<or> ?res ! i = PRESENT)) \<and> ?res ! i = HIT) ?idx)
      + length (filter (\<lambda>i. (g ! i = c \<and> (?res ! i = HIT \<or> ?res ! i = PRESENT)) \<and> ?res ! i \<noteq> HIT) ?idx)"
    by (rule length_filter_split)
  have hits: "filter (\<lambda>i. (g ! i = c \<and> (?res ! i = HIT \<or> ?res ! i = PRESENT)) \<and> ?res ! i = HIT) ?idx
      = filter (\<lambda>i. a ! i = c \<and> g ! i = a ! i) ?idx"
    by (rule filter_cong) (auto simp: second_hit)
  have pres: "filter (\<lambda>i. (g ! i = c \<and> (?res ! i = HIT \<or> ?res ! i = PRESENT)) \<and> ?res ! i \<noteq> HIT) ?idx
      = filter (\<lambda>i. g ! i = c \<and> ?res ! i = PRESENT) ?idx"
    by (rule filter_cong) auto
  have "int (length (filter (\<lambda>i. g ! i = c \<and> ?res ! i = PRESENT) ?idx))
          \<le> remain_get (snd (after_first a g (length a))) c"
    using second_present_count[of "length a" a g c] second_remain_nonneg[of a g "length a" c]
    by simp
  then have pres_le: "length (filter (\<lambda>i. g ! i = c \<and> ?res ! i = PRESENT) ?idx)
          \<le> length (filter (\<lambda>i. a ! i = c \<and> g ! i \<noteq> a ! i) ?idx)"
    by (simp add: first_remain)
  have total: "length (filter (\<lambda>i. a ! i = c) ?idx)
      = length (filter (\<lambda>i. a ! i = c \<and> g ! i = a ! i) ?idx)
      + length (filter (\<lambda>i. a ! i = c \<and> g ! i \<noteq> a ! i) ?idx)"
    by (rule length_filter_split)
  have eq: "length (filter (\<lambda>i. g ! i = c \<and> (?res ! i = HIT \<or> ?res ! i = PRESENT)) ?idx)
      = length (filter (\<lambda>i. a ! i = c \<and> g ! i = a ! i) ?idx)
      + length (filter (\<lambda>i. g ! i = c \<and> ?res ! i = PRESENT) ?idx)"
    unfolding split hits pres by (rule refl)
  show ?thesis
    unfolding eq count_list_index total using pres_le by (rule add_left_mono)
qed


text \<open>
  C1: for normalised words \<open>t\<close> and \<open>g\<close> of equal length, \<open>score_guess t g\<close> returns a
  pattern of that length whose \<open>HIT\<close> tokens sit exactly at the positions where the two
  words agree, and for every letter \<open>c\<close> the number of guess positions holding \<open>c\<close> with a
  \<open>HIT\<close> or \<open>PRESENT\<close> token is at most the number of occurrences of \<open>c\<close> in \<open>t\<close>.
\<close>

theorem C1_hits_and_multiplicity:
  assumes "normalize_str t = t" and "normalize_str g = g" and "length t = length g"
  shows "\<exists>res. score_guess t g = Inr res \<and> length res = length g \<and>
           (\<forall>i < length g. (res ! i = HIT) = (t ! i = g ! i)) \<and>
           (\<forall>c. length (filter (\<lambda>i. g ! i = c \<and> (res ! i = HIT \<or> res ! i = PRESENT))
                          [0..<length g]) \<le> count_list t c)"
proof -
  let ?res = "fst (after_second t g (length t))"
  have "score_guess t g = Inr ?res"
    using assms score_guess_after_second[of t g] by simp
  moreover have "length ?res = length g"
    using assms by (simp add: second_length)
  moreover have "\<forall>i < length g. (?res ! i = HIT) = (t ! i = g ! i)"
    using assms by (auto simp: second_hit)
  moreover have "\<forall>c. length (filter (\<lambda>i. g ! i = c \<and> (?res ! i = HIT \<or> ?res ! i = PRESENT))
                          [0..<length g]) \<le> count_list t c"
    using hit_or_present_bound[OF assms(3)] assms(3) by simp
  ultimately show ?thesis by blast
qed

text \<open>C1 at the target \<open>sassy\<close> and the guess \<open>grass\<close>.\<close>

theorem C1_hits_and_multiplicity_witness:
  "normalize_str ''sassy'' = ''sassy'' \<and> normalize_str ''grass'' = ''grass'' \<and>
   length ''sassy'' = length ''grass'' \<and>
   (\<exists>res. score_guess ''sassy'' ''grass'' = Inr res \<and> length res = length ''grass'' \<and>
      (\<forall>i < length ''grass''. (res ! i = HIT) = (''sassy'' ! i = ''grass'' ! i)) \<and>
      (\<forall>c. length (filter (\<lambda>i. ''grass'' ! i = c \<and> (res ! i = HIT \<or> res ! i = PRESENT))
                     [0..<length ''grass'']) \<le> count_list ''sassy'' c))"
proof -
  have n1: "normalize_str ''sassy'' = ''sassy''" by code_simp
  have n2: "normalize_str ''grass'' = ''grass''" by code_simp
  have l: "length ''sassy'' = length ''grass''" by simp
  show ?thesis
    using n1 n2 l C1_hits_and_multiplicity[OF n1 n2 l] by blast
qed


section \<open>The standard game: accepted and rejected guesses\<close>

lemma normalize_lower: "normalize_str (lower w) = normalize_str w"
  by (simp add: normalize_str_def strip_lower lower_idem)

lemma score_guess_normalized:
  "normalize_str a = a \<Longrightarrow> normalize_str g = g \<Longrightarrow> length a = length g \<Longrightarrow>
     \<exists>toks. score_guess a g = Inr toks"
  by (simp add: score_guess_def Let_def)

lemma list_all_HIT: "list_all (\<lambda>t. t = HIT) toks = (\<forall>t\<in>set toks. t = HIT)"
  by (simp add: list_all_iff)

text \<open>what an accepted guess does to a game whose answer is normalised\<close>
lemma normal_guess_word_accepts:
  assumes a: "normalize_str (answer s) = answer s"
    and w: "normalize_str w = w" "length w = length (answer s)" "w \<in> set (word_list (cfg s))"
    and sc: "score_guess (answer s) w = Inr toks"
  shows "normal_guess_word s w =
     (Inr \<lparr>guess = w, tokens = toks,
          remaining = max_rounds (cfg s) - int (round s + 1),
          won = (\<forall>t\<in>set toks. t = HIT),
          over = ((\<forall>t\<in>set toks. t = HIT) \<or> max_rounds (cfg s) \<le> int (round s + 1))\<rparr>,
      s\<lparr>round := round s + 1,
        history := history s @
          [\<lparr>guess = w, tokens = toks,
            remaining = max_rounds (cfg s) - int (round s + 1),
            won = (\<forall>t\<in>set toks. t = HIT),
            over = ((\<forall>t\<in>set toks. t = HIT) \<or> max_rounds (cfg s) \<le> int (round s + 1))\<rparr>]\<rparr>)"
  using w sc by (simp add: normal_guess_word_def Let_def list_all_HIT)

lemma normal_inv_init: "normal_inv (NormalWordleGame_init ans c)"
  by (simp add: normal_inv_def NormalWordleGame_init_def normalize_idem)

lemma normal_inv_step: "normal_inv s \<Longrightarrow> normal_inv (snd (normal_guess_word s w))"
  by (auto simp: normal_inv_def normal_guess_word_def Let_def score_guess_def normalize_idem)

lemma normal_play_snoc:
  "normal_play s (ws @ [w]) = snd (normal_guess_word (normal_play s ws) w)"
  by (simp add: normal_play_def)

lemma normal_inv_play: "normal_inv s \<Longrightarrow> normal_inv (normal_play s ws)"
  by (induction ws rule: rev_induct) (simp_all add: normal_play_def normal_inv_step)

text \<open>
  C4: on a standard game (any state reached from construction by calls of \<open>guess_word\<close>),
  a legal guess (normalised, of the answer's length, in the word list) increments the round
  counter by one, scores the guess against the fixed answer, sets \<open>won\<close> iff every token is
  \<open>HIT\<close> and \<open>over\<close> iff \<open>won\<close> or the round reached \<open>max_rounds\<close>, and appends the
  result with \<open>remaining = max_rounds - round\<close>; afterwards the history is as long as the
  round counter.
\<close>

theorem C4_standard_guess_effect:
  assumes "s = normal_play (NormalWordleGame_init ans c) ws"
    and "normalize_str w = w" and "length w = length (answer s)"
    and "w \<in> set (word_list (cfg s))"
  shows "\<exists>toks rr s'. normal_guess_word s w = (Inr rr, s') \<and>
           score_guess (answer s) w = Inr toks \<and>
           round s' = round s + 1 \<and>
           rr = \<lparr>guess = w, tokens = toks,
                 remaining = max_rounds (cfg s) - int (round s'),
                 won = (\<forall>t\<in>set toks. t = HIT),
                 over = ((\<forall>t\<in>set toks. t = HIT) \<or> max_rounds (cfg s) \<le> int (round s'))\<rparr> \<and>
           history s' = history s @ [rr] \<and> answer s' = answer s \<and> cfg s' = cfg s \<and>
           length (history s') = round s'"
proof -
  have inv: "normal_inv s"
    unfolding assms(1) by (rule normal_inv_play) (rule normal_inv_init)
  then have a: "normalize_str (answer s) = answer s" and h: "length (history s) = round s"
    by (simp_all add: normal_inv_def)
  from score_guess_normalized[OF a assms(2)] assms(3)
  obtain toks where sc: "score_guess (answer s) w = Inr toks" by auto
  show ?thesis
    using normal_guess_word_accepts[OF a assms(2) assms(3) assms(4) sc] sc h by simp
qed

text \<open>C4 at the winning second guess of a game on \<open>crane\<close>.\<close>

theorem C4_standard_guess_effect_witness:
  "normalize_str ''crane'' = ''crane'' \<and>
   length ''crane'' =
     length (answer (normal_play (NormalWordleGame_init ''crane''
        \<lparr>max_rounds = 6, word_list = [''crane'', ''arena'']\<rparr>) [''arena''])) \<and>
   ''crane'' \<in> set (word_list (cfg (normal_play (NormalWordleGame_init ''crane''
        \<lparr>max_rounds = 6, word_list = [''crane'', ''arena'']\<rparr>) [''arena'']))) \<and>
   (\<exists>toks rr s'.
      normal_guess_word (normal_play (NormalWordleGame_init ''crane''
        \<lparr>max_rounds = 6, word_list = [''crane'', ''arena'']\<rparr>) [''arena'']) ''crane'' = (Inr rr, s') \<and>
      tokens rr = toks \<and> round s' = 2 \<and> remaining rr = 4 \<and> won rr \<and> over rr \<and>
      length (history s') = round s')"
proof -
  let ?s = "normal_play (NormalWordleGame_init ''crane''
        \<lparr>max_rounds = 6, word_list = [''crane'', ''arena'']\<rparr>) [''arena'']"
  have n: "normalize_str ''crane'' = ''crane''" by code_simp
  have l: "length ''crane'' = length (answer ?s)" by code_simp
  have m: "''crane'' \<in> set (word_list (cfg ?s))" by code_simp
  have r: "round ?s = 1" by code_simp
  have mr: "max_rounds (cfg ?s) = 6" by code_simp
  have sc: "score_guess (answer ?s) ''crane'' = Inr [HIT, HIT, HIT, HIT, HIT]" by code_simp
  from C4_standard_guess_effect[OF refl n l m]
  obtain toks rr s' where *: "normal_guess_word ?s ''crane'' = (Inr rr, s')"
      "score_guess (answer ?s) ''crane'' = Inr toks"
      "round s' = round ?s + 1"
      "rr = \<lparr>guess = ''crane'', tokens = toks,
                 remaining = max_rounds (cfg ?s) - int (round s'),
                 won = (\<forall>t\<in>set toks. t = HIT),
                 over = ((\<forall>t\<in>set toks. t = HIT) \<or> max_rounds (cfg ?s) \<le> int (round s'))\<rparr>"
      "length (history s') = round s'"
    by blast
  from *(2) sc have t: "toks = [HIT, HIT, HIT, HIT, HIT]" by simp
  have "tokens rr = toks \<and> round s' = 2 \<and> remaining rr = 4 \<and> won rr \<and> over rr \<and>
      length (history s') = round s'"
    using * r mr t by simp
  with * n l m show ?thesis by blast
qed


section \<open>Rejected guesses\<close>

lemma normal_guess_word_rejects:
  "normalize_str w \<notin> set (word_list (cfg s)) \<Longrightarrow>
     normal_guess_word s w =
       (Inl (ValueError (if length (normalize_str w) \<noteq> length (answer s)
                         then ''Guess must be same length as answer.''
                         else ''Word not found in dictionary.'')), s)"
  by (simp add: normal_guess_word_def Let_def)

lemma handle_guess_multi_over:
  "room_over room \<Longrightarrow>
     \<exists>room'. handle_guess_multi alive self player w room =
               (room', [(self, Error_reply ''Game already over.'')]) \<and>
             game room' = game room \<and> room_over room' = room_over room"
  by (simp add: handle_guess_multi_def Let_def send_json_def)

lemma handle_guess_multi_illegal:
  "\<not> room_over room \<Longrightarrow> normalize_str w \<notin> set (word_list (cfg (game room))) \<Longrightarrow>
     \<exists>msg room'. handle_guess_multi alive self player w room = (room', [(self, Error_reply msg)]) \<and>
             game room' = game room \<and> room_over room' = room_over room"
  using normal_guess_word_rejects[of "lower w" "game room"]
  by (simp add: handle_guess_multi_def Let_def send_json_def normalize_lower)

text \<open>
  C5 as the spec states it: every guess that is not in the word list fails with the
  dictionary error (\<open>IllegalWord\<close>). The length check comes first in the code: with the
  answer \<open>ab\<close>, the guess \<open>abc\<close> is not in the word list and fails with the length error.
\<close>

theorem C5_rejected_guess_counterexample:
  "normalize_str ''abc'' \<notin> set (word_list \<lparr>max_rounds = 6, word_list = [''ab'']\<rparr>) \<and>
   fst (normal_guess_word
          (NormalWordleGame_init ''ab'' \<lparr>max_rounds = 6, word_list = [''ab'']\<rparr>) ''abc'')
     = Inl (ValueError ''Guess must be same length as answer.'') \<and>
   fst (normal_guess_word
          (NormalWordleGame_init ''ab'' \<lparr>max_rounds = 6, word_list = [''ab'']\<rparr>) ''abc'')
     \<noteq> Inl (ValueError ''Word not found in dictionary.'')"
  by code_simp

text \<open>
  C5, amended: a guess whose normalised form is not in the word list makes
  \<open>NormalWordleGame.guess_word\<close> raise, the length error when its length differs from the
  answer's and the dictionary error (\<open>IllegalWord\<close>) otherwise, and the game (round
  counter, history) is left as it was. In a room, such a guess, and any guess sent when the
  room is over, produces exactly one write, an error reply to the sender, and leaves the
  game and the room's \<open>over\<close> flag as they were.
\<close>

theorem C5_rejected_guess_leaves_state:
  "(normalize_str w \<notin> set (word_list (cfg s)) \<longrightarrow>
      normal_guess_word s w =
        (Inl (ValueError (if length (normalize_str w) \<noteq> length (answer s)
                          then ''Guess must be same length as answer.''
                          else ''Word not found in dictionary.'')), s)) \<and>
   (room_over room \<or> normalize_str w \<notin> set (word_list (cfg (game room))) \<longrightarrow>
      (\<exists>msg room'. handle_guess_multi alive self player w room = (room', [(self, Error_reply msg)]) \<and>
         game room' = game room \<and> room_over room' = room_over room))"
  using normal_guess_word_rejects[of w s] handle_guess_multi_over[of room alive self player w]
    handle_guess_multi_illegal[of room w alive self player]
  by blast

text \<open>C5 at the guess \<open>zz\<close> against the answer \<open>ab\<close>, in a room with two connections.\<close>

theorem C5_rejected_guess_leaves_state_witness:
  "normalize_str ''zz'' \<notin> set (word_list (cfg (NormalWordleGame_init ''ab'' \<lparr>max_rounds = 6, word_list = [''ab'']\<rparr>))) \<and>
   normal_guess_word (NormalWordleGame_init ''ab'' \<lparr>max_rounds = 6, word_list = [''ab'']\<rparr>) ''zz'' =
     (Inl (ValueError ''Word not found in dictionary.''),
      NormalWordleGame_init ''ab'' \<lparr>max_rounds = 6, word_list = [''ab'']\<rparr>) \<and>
   (\<exists>msg room'.
      handle_guess_multi (\<lambda>h. True) 0 ''ann'' ''zz''
        \<lparr>room_answer = ''ab'',
         game = NormalWordleGame_init ''ab'' \<lparr>max_rounds = 6, word_list = [''ab'']\<rparr>,
         players = [''ann'', ''bob''], streams = [0, 1], room_over = False\<rparr>
        = (room', [(0, Error_reply msg)]) \<and>
      game room' = NormalWordleGame_init ''ab'' \<lparr>max_rounds = 6, word_list = [''ab'']\<rparr> \<and>
      room_over room' = False)"
proof -
  let ?g = "NormalWordleGame_init ''ab'' \<lparr>max_rounds = 6, word_list = [''ab'']\<rparr>"
  let ?room = "\<lparr>room_answer = ''ab'', game = ?g,
         players = [''ann'', ''bob''], streams = [0, 1], room_over = False\<rparr>"
  have h: "normalize_str ''zz'' \<notin> set (word_list (cfg ?g))" by code_simp
  have l: "length (normalize_str ''zz'') = length (answer ?g)" by code_simp
  show ?thesis
    using h l C5_rejected_guess_leaves_state[of "''zz''" ?g ?room "\<lambda>h. True" 0 "''ann''"]
    by simp
qed

text \<open>
  C7 as the spec states it: \<open>remaining\<close> is never negative, for every sequence of calls.
  The game object does not stop at exhaustion: with \<open>max_rounds = 1\<close> the second guess
  returns \<open>remaining = -1\<close>.
\<close>

theorem C7_remaining_counterexample:
  "fst (normal_guess_word
          (normal_play (NormalWordleGame_init ''ab'' \<lparr>max_rounds = 1, word_list = [''ab'', ''cd'']\<rparr>)
             [''cd'']) ''cd'')
     = Inr \<lparr>guess = ''cd'', tokens = [MISS, MISS], remaining = - 1, won = False, over = True\<rparr>"
  by code_simp

section \<open>Rounds remaining\<close>

lemma cheat_narrow_remaining:
  "fst (cheat_narrow s word) = Inr rr \<Longrightarrow>
     remaining rr = max_rounds (cheat_cfg s) - int (cheat_round s + 1)"
  by (auto simp: cheat_narrow_def Let_def split: sum.splits prod.splits option.splits list.splits)

lemma normal_remaining:
  "fst (normal_guess_word s w) = Inr rr \<Longrightarrow>
     remaining rr = max_rounds (cfg s) - int (round s + 1)"
  by (auto simp: normal_guess_word_def Let_def split: if_splits sum.splits)

lemma cheating_remaining:
  "fst (cheating_guess_word s w) = Inr rr \<Longrightarrow>
     remaining rr = max_rounds (cheat_cfg s) - int (cheat_round s + 1) \<or>
     remaining rr = max_rounds (cheat_cfg s) - 1"
  by (auto simp: cheating_guess_word_def Let_def NormalWordleGame_init_def
           dest!: cheat_narrow_remaining normal_remaining split: if_splits option.splits)

text \<open>
  C7, amended: for either game, a call of \<open>guess_word\<close> made while the game's round counter
  is below \<open>max_rounds\<close> returns a result whose \<open>remaining\<close> is not negative.
\<close>

theorem C7_remaining_nonneg_before_exhaustion:
  "(int (round s) < max_rounds (cfg s) \<and> fst (normal_guess_word s w) = Inr rr \<longrightarrow>
      0 \<le> remaining rr) \<and>
   (int (cheat_round cs) < max_rounds (cheat_cfg cs) \<and> fst (cheating_guess_word cs w') = Inr rr' \<longrightarrow>
      0 \<le> remaining rr')"
  using normal_remaining[of s w rr] cheating_remaining[of cs w' rr'] by auto


text \<open>C7 at the first guess of a six-round game, standard and cheating.\<close>

theorem C7_remaining_nonneg_before_exhaustion_witness:
  "int (round (NormalWordleGame_init ''ab'' \<lparr>max_rounds = 6, word_list = [''ab'', ''cd'']\<rparr>))
     < max_rounds (cfg (NormalWordleGame_init ''ab'' \<lparr>max_rounds = 6, word_list = [''ab'', ''cd'']\<rparr>)) \<and>
   fst (normal_guess_word
          (NormalWordleGame_init ''ab'' \<lparr>max_rounds = 6, word_list = [''ab'', ''cd'']\<rparr>) ''cd'')
     = Inr \<lparr>guess = ''cd'', tokens = [MISS, MISS], remaining = 5, won = False, over = False\<rparr> \<and>
   0 \<le> remaining \<lparr>guess = ''cd'', tokens = [MISS, MISS], remaining = 5, won = False, over = False\<rparr> \<and>
   int (cheat_round (CheatingWordleGame_init \<lparr>max_rounds = 6, word_list = [''ab'', ''cd'']\<rparr>))
     < max_rounds (cheat_cfg (CheatingWordleGame_init \<lparr>max_rounds = 6, word_list = [''ab'', ''cd'']\<rparr>)) \<and>
   fst (cheating_guess_word
          (CheatingWordleGame_init \<lparr>max_rounds = 6, word_list = [''ab'', ''cd'']\<rparr>) ''ab'')
     = Inr \<lparr>guess = ''ab'', tokens = [MISS, MISS], remaining = 5, won = False, over = False\<rparr> \<and>
   0 \<le> remaining \<lparr>guess = ''ab'', tokens = [MISS, MISS], remaining = 5, won = False, over = False\<rparr>"
proof -
  let ?c = "\<lparr>max_rounds = 6, word_list = [''ab'', ''cd'']\<rparr>"
  let ?s = "NormalWordleGame_init ''ab'' ?c"
  let ?cs = "CheatingWordleGame_init ?c"
  let ?rr = "\<lparr>guess = ''cd'', tokens = [MISS, MISS], remaining = 5, won = False, over = False\<rparr>"
  let ?rr' = "\<lparr>guess = ''ab'', tokens = [MISS, MISS], remaining = 5, won = False, over = False\<rparr>"
  have a: "int (round ?s) < max_rounds (cfg ?s)" by code_simp
  have b: "fst (normal_guess_word ?s ''cd'') = Inr ?rr" by code_simp
  have c: "int (cheat_round ?cs) < max_rounds (cheat_cfg ?cs)" by code_simp
  have d: "fst (cheating_guess_word ?cs ''ab'') = Inr ?rr'" by code_simp
  from C7_remaining_nonneg_before_exhaustion[of ?s "''cd''" ?rr ?cs "''ab''" ?rr'] a b c d
  have "0 \<le> remaining ?rr \<and> 0 \<le> remaining ?rr'" by blast
  with a b c d show ?thesis by blast
qed

text \<open>
  C3: once the cheating host has resolved its answer, later calls should behave as one
  standard game on that answer, rounds included. The code builds a new standard game for
  every call: with the word list \<open>ab, cd\<close> the guess \<open>ab\<close> resolves the answer \<open>cd\<close>, and
  the next two calls both return \<open>remaining = 5\<close>, where a standard game on \<open>cd\<close> returns
  5 and then 4.
\<close>

theorem C3_delegation_restarts_rounds:
  "final (cheating_play (CheatingWordleGame_init \<lparr>max_rounds = 6, word_list = [''ab'', ''cd'']\<rparr>) [''ab''])
     = Some ''cd'' \<and>
   candidates (cheating_play (CheatingWordleGame_init \<lparr>max_rounds = 6, word_list = [''ab'', ''cd'']\<rparr>) [''ab''])
     = [''cd''] \<and>
   fst (cheating_guess_word
          (cheating_play (CheatingWordleGame_init \<lparr>max_rounds = 6, word_list = [''ab'', ''cd'']\<rparr>)
             [''ab'']) ''ab'')
     = Inr \<lparr>guess = ''ab'', tokens = [MISS, MISS], remaining = 5, won = False, over = False\<rparr> \<and>
   fst (cheating_guess_word
          (cheating_play (CheatingWordleGame_init \<lparr>max_rounds = 6, word_list = [''ab'', ''cd'']\<rparr>)
             [''ab'', ''ab'']) ''ab'')
     = Inr \<lparr>guess = ''ab'', tokens = [MISS, MISS], remaining = 5, won = False, over = False\<rparr> \<and>
   fst (normal_guess_word
          (NormalWordleGame_init ''cd'' \<lparr>max_rounds = 6, word_list = [''ab'', ''cd'']\<rparr>) ''ab'')
     = Inr \<lparr>guess = ''ab'', tokens = [MISS, MISS], remaining = 5, won = False, over = False\<rparr> \<and>
   fst (normal_guess_word
          (normal_play (NormalWordleGame_init ''cd'' \<lparr>max_rounds = 6, word_list = [''ab'', ''cd'']\<rparr>)
             [''ab'']) ''ab'')
     = Inr \<lparr>guess = ''ab'', tokens = [MISS, MISS], remaining = 4, won = False, over = False\<rparr>"
  by code_simp

section \<open>The order of the room's writes\<close>

lemma broadcast_streams: "streams (fst (broadcast alive room msg)) = filter alive (streams room)"
  by (simp add: broadcast_def)

text \<open>
  C9: for an accepted guess in a room, the writes of the handler are, in this order: the
  ack to the guessing connection, the \<open>guess\<close> event to every stream of the room, and, when
  the guess is credited as a win, the \<open>game_over\<close> event to the streams still alive.
\<close>

theorem C9_ack_then_guess_then_game_over:
  assumes "\<not> room_over room"
    and "normal_guess_word (game room) (lower w) = (Inr rr, g')"
  shows "snd (handle_guess_multi alive self player w room) =
     [(self, Guess_ack \<lparr>data_player = player, data_tokens = tokens rr, data_won = won rr,
                        data_over = over rr, data_remaining = remaining rr\<rparr>)]
     @ map (\<lambda>h. (h, Guess_event \<lparr>data_player = player, data_tokens = tokens rr,
                     data_won = won rr, data_over = over rr, data_remaining = remaining rr\<rparr>))
         (if self \<notin> set (streams room) then streams room @ [self] else streams room)
     @ (if won rr \<and> player \<noteq> []
        then map (\<lambda>h. (h, Game_over_event player))
               (filter alive (if self \<notin> set (streams room) then streams room @ [self]
                              else streams room))
        else [])"
  using assms
  by (simp add: handle_guess_multi_def Let_def send_json_def broadcast_def)

text \<open>C9 at a winning guess by the second of two connections.\<close>

theorem C9_ack_then_guess_then_game_over_witness:
  "\<not> room_over \<lparr>room_answer = ''ab'',
         game = NormalWordleGame_init ''ab'' \<lparr>max_rounds = 6, word_list = [''ab'', ''cd'']\<rparr>,
         players = [''ann'', ''bob''], streams = [0, 1], room_over = False\<rparr> \<and>
   fst (normal_guess_word
          (NormalWordleGame_init ''ab'' \<lparr>max_rounds = 6, word_list = [''ab'', ''cd'']\<rparr>) (lower ''AB''))
     = Inr \<lparr>guess = ''ab'', tokens = [HIT, HIT], remaining = 5, won = True, over = True\<rparr> \<and>
   snd (handle_guess_multi (\<lambda>h. True) 1 ''bob'' ''AB''
         \<lparr>room_answer = ''ab'',
          game = NormalWordleGame_init ''ab'' \<lparr>max_rounds = 6, word_list = [''ab'', ''cd'']\<rparr>,
          players = [''ann'', ''bob''], streams = [0, 1], room_over = False\<rparr>)
     = [(1, Guess_ack \<lparr>data_player = ''bob'', data_tokens = [HIT, HIT], data_won = True,
                       data_over = True, data_remaining = 5\<rparr>),
        (0, Guess_event \<lparr>data_player = ''bob'', data_tokens = [HIT, HIT], data_won = True,
                       data_over = True, data_remaining = 5\<rparr>),
        (1, Guess_event \<lparr>data_player = ''bob'', data_tokens = [HIT, HIT], data_won = True,
                       data_over = True, data_remaining = 5\<rparr>),
        (0, Game_over_event ''bob''),
        (1, Game_over_event ''bob'')]"
proof -
  let ?g = "NormalWordleGame_init ''ab'' \<lparr>max_rounds = 6, word_list = [''ab'', ''cd'']\<rparr>"
  let ?room = "\<lparr>room_answer = ''ab'', game = ?g,
         players = [''ann'', ''bob''], streams = [0, 1], room_over = False\<rparr>"
  let ?rr = "\<lparr>guess = ''ab'', tokens = [HIT, HIT], remaining = 5, won = True, over = True\<rparr>"
  have o: "\<not> room_over ?room" by simp
  have f: "fst (normal_guess_word ?g (lower ''AB'')) = Inr ?rr" by code_simp
  then have e: "normal_guess_word (game ?room) (lower ''AB'') =
             (Inr ?rr, snd (normal_guess_word ?g (lower ''AB'')))"
    by (simp add: prod_eq_iff)
  show ?thesis
    using o f C9_ack_then_guess_then_game_over[OF o e, of "\<lambda>h. True" 1 "''bob''"]
    by simp
qed


section \<open>The candidate set of the cheating host\<close>

lemma setdefault_add_subset:
  "\<forall>(k', s)\<in>set bs. set s \<subseteq> X \<Longrightarrow> c \<in> X \<Longrightarrow>
     \<forall>(k', s)\<in>set (setdefault_add k c bs). set s \<subseteq> X"
  by (induction k c bs rule: setdefault_add.induct) auto

lemma partition_candidates_subset:
  "partition_candidates cs word bs = Inr bs' \<Longrightarrow> set cs \<subseteq> X \<Longrightarrow>
     \<forall>(k, s)\<in>set bs. set s \<subseteq> X \<Longrightarrow> \<forall>(k, s)\<in>set bs'. set s \<subseteq> X"
proof (induction cs arbitrary: bs)
  case Nil
  then show ?case by simp
next
  case (Cons c cs)
  from Cons.prems(1) obtain pat where sc: "score_guess c word = Inr pat"
    and rest: "partition_candidates cs word (setdefault_add (pattern_key pat) c bs) = Inr bs'"
    by (auto split: sum.splits)
  have "\<forall>(k, s)\<in>set (setdefault_add (pattern_key pat) c bs). set s \<subseteq> X"
    using Cons.prems(2,3) by (intro setdefault_add_subset) auto
  with Cons.IH[OF rest] Cons.prems(2) show ?case by simp
qed

lemma select_step_cases:
  "select_step y acc = (Some (fst y), snd y) \<or> select_step y acc = acc"
  by (cases "(y, acc)" rule: select_step.cases) auto

lemma fold_select_step_member:
  "snd (fold select_step bs acc) = snd acc \<or> snd (fold select_step bs acc) \<in> snd ` set bs"
proof (induction bs arbitrary: acc)
  case Nil
  show ?case by simp
next
  case (Cons y bs)
  from Cons.IH[of "select_step y acc"] select_step_cases[of y acc]
  show ?case by auto
qed

lemma select_best_subset:
  "\<forall>(k, s)\<in>set bs. set s \<subseteq> X \<Longrightarrow> set (snd (select_best bs)) \<subseteq> X"
  using fold_select_step_member[of bs "(None, [])"]
  by (fastforce simp: select_best_def)

lemma cheat_narrow_subset:
  "set (candidates (snd (cheat_narrow s word))) \<subseteq> set (candidates s)"
proof (cases "partition_candidates (candidates s) word []")
  case (Inl e)
  then show ?thesis by (simp add: cheat_narrow_def)
next
  case (Inr bs)
  have "\<forall>(k, s')\<in>set bs. set s' \<subseteq> set (candidates s)"
    using partition_candidates_subset[OF Inr, of "set (candidates s)"] by simp
  then have sub: "set (snd (select_best bs)) \<subseteq> set (candidates s)"
    by (rule select_best_subset)
  obtain bk bset where sb: "select_best bs = (bk, bset)" by (cases "select_best bs")
  with sub have "set bset \<subseteq> set (candidates s)" by simp
  with Inr sb show ?thesis
    by (cases bk; cases bset rule: remdups_adj.cases)
       (auto simp: cheat_narrow_def Let_def)
qed

lemma cheating_guess_word_subset:
  "set (candidates (snd (cheating_guess_word s w))) \<subseteq> set (candidates s)"
  using cheat_narrow_subset[of s "normalize_str w"]
  by (simp add: cheating_guess_word_def Let_def split: option.splits)

lemma cheating_play_append:
  "cheating_play s (ws1 @ ws2) = cheating_play (cheating_play s ws1) ws2"
  by (simp add: cheating_play_def)

lemma cheating_play_subset:
  "set (candidates (cheating_play s ws)) \<subseteq> set (candidates s)"
proof (induction ws rule: rev_induct)
  case Nil
  show ?case by (simp add: cheating_play_def)
next
  case (snoc w ws)
  have "cheating_play s (ws @ [w]) = snd (cheating_guess_word (cheating_play s ws) w)"
    by (simp add: cheating_play_def)
  with cheating_guess_word_subset[of "cheating_play s ws" w] snoc show ?case by auto
qed

text \<open>
  C6: along any sequence of \<open>guess_word\<close> calls on a cheating host, the candidate set after
  more calls is a subset of the candidate set after fewer (each call keeps it or replaces
  it by one of its own buckets), so its size never grows.
\<close>

theorem C6_candidates_only_shrink:
  "set (candidates (cheating_play s (ws1 @ ws2))) \<subseteq> set (candidates (cheating_play s ws1)) \<and>
   card (set (candidates (cheating_play s (ws1 @ ws2))))
     \<le> card (set (candidates (cheating_play s ws1)))"
proof -
  have "set (candidates (cheating_play s (ws1 @ ws2))) \<subseteq> set (candidates (cheating_play s ws1))"
    unfolding cheating_play_append by (rule cheating_play_subset)
  then show ?thesis by (simp add: card_mono)
qed


section \<open>The bucket the cheating host keeps\<close>

subsection \<open>The partition\<close>

lemma score_guess_norm_guess: "score_guess c (normalize_str w) = score_guess c w"
  by (simp add: score_guess_def normalize_idem)

lemma score_guess_total:
  "length (normalize_str c) = length (normalize_str w) \<Longrightarrow> \<exists>pat. score_guess c w = Inr pat"
  by (simp add: score_guess_def Let_def)

lemma partition_candidates_fold:
  "\<forall>c\<in>set cs. \<exists>pat. score_guess c word = Inr pat \<Longrightarrow>
     partition_candidates cs word bs = Inr (fold (\<lambda>c. setdefault_add (key_of word c) c) cs bs)"
  by (induction cs arbitrary: bs) (auto simp: key_of_def)

lemma map_of_setdefault_add:
  "map_of (setdefault_add k c bs) =
     (map_of bs)(k \<mapsto> (case map_of bs k of None \<Rightarrow> [c] | Some s \<Rightarrow> List.insert c s))"
  by (induction k c bs rule: setdefault_add.induct) (auto simp: fun_eq_iff)

lemma keys_setdefault_add:
  "map fst (setdefault_add k c bs) =
     (if k \<in> set (map fst bs) then map fst bs else map fst bs @ [k])"
  by (induction k c bs rule: setdefault_add.induct) auto

lemma buckets_of_distinct: "buckets_of kf X bs \<Longrightarrow> distinct (map fst bs)"
  unfolding buckets_of_def by blast

lemma buckets_of_lookup:
  "buckets_of kf X bs \<Longrightarrow>
     (case map_of bs k of
        None \<Rightarrow> k \<notin> kf ` X
      | Some s \<Rightarrow> s \<noteq> [] \<and> distinct s \<and> set s = {c \<in> X. kf c = k})"
  unfolding buckets_of_def by blast

lemma buckets_of_empty: "buckets_of kf {} []"
  by (simp add: buckets_of_def)

lemma buckets_of_step:
  assumes "buckets_of kf X bs"
  shows "buckets_of kf (insert c X) (setdefault_add (kf c) c bs)"
proof -
  have d: "distinct (map fst bs)"
    using assms by (rule buckets_of_distinct)
  have m: "case map_of bs k of
              None \<Rightarrow> k \<notin> kf ` X
            | Some s \<Rightarrow> s \<noteq> [] \<and> distinct s \<and> set s = {c \<in> X. kf c = k}" for k
    using assms by (rule buckets_of_lookup)
  have d': "distinct (map fst (setdefault_add (kf c) c bs))"
    using d by (simp add: keys_setdefault_add)
  have "case map_of (setdefault_add (kf c) c bs) k of
              None \<Rightarrow> k \<notin> kf ` insert c X
            | Some s \<Rightarrow> s \<noteq> [] \<and> distinct s \<and> set s = {c' \<in> insert c X. kf c' = k}" for k
  proof (cases "k = kf c")
    case True
    show ?thesis
    proof (cases "map_of bs (kf c)")
      case None
      with m[of "kf c"] have "kf c \<notin> kf ` X" by simp
      then have "{c' \<in> insert c X. kf c' = kf c} = {c}" by (auto simp: image_iff)
      with None True show ?thesis by (simp add: map_of_setdefault_add)
    next
      case (Some s)
      with m[of "kf c"] have "s \<noteq> []" "distinct s" "set s = {c' \<in> X. kf c' = kf c}" by simp_all
      then have "List.insert c s \<noteq> []" "distinct (List.insert c s)"
        "set (List.insert c s) = {c' \<in> insert c X. kf c' = kf c}"
        by (auto simp: List.insert_def)
      with Some True show ?thesis by (simp add: map_of_setdefault_add)
    qed
  next
    case False
    then have eq: "map_of (setdefault_add (kf c) c bs) k = map_of bs k"
      by (simp add: map_of_setdefault_add)
    from False have "{c' \<in> insert c X. kf c' = k} = {c' \<in> X. kf c' = k}" by auto
    with m[of k] False show ?thesis unfolding eq by (auto split: option.splits)
  qed
  with d' show ?thesis unfolding buckets_of_def by blast
qed

lemma buckets_of_fold:
  "buckets_of kf X bs \<Longrightarrow>
     buckets_of kf (X \<union> set cs) (fold (\<lambda>c. setdefault_add (kf c) c) cs bs)"
proof (induction cs arbitrary: X bs)
  case Nil
  then show ?case by simp
next
  case (Cons c cs)
  from Cons.IH[OF buckets_of_step[OF Cons.prems, of c]] show ?case by simp
qed

lemma buckets_of_member:
  assumes "buckets_of kf X bs"
  shows "(k, s) \<in> set bs \<longleftrightarrow> (k \<in> kf ` X \<and> distinct s \<and> set s = {c \<in> X. kf c = k} \<and> map_of bs k = Some s)"
proof -
  have d: "distinct (map fst bs)"
    using assms by (rule buckets_of_distinct)
  have m: "case map_of bs k of
              None \<Rightarrow> k \<notin> kf ` X
            | Some s \<Rightarrow> s \<noteq> [] \<and> distinct s \<and> set s = {c \<in> X. kf c = k}" for k
    using assms by (rule buckets_of_lookup)
  have iff: "(k, s) \<in> set bs \<longleftrightarrow> map_of bs k = Some s"
    using d by simp
  show ?thesis
  proof
    assume "(k, s) \<in> set bs"
    with iff have ms: "map_of bs k = Some s" by simp
    with m[of k] have "s \<noteq> []" "distinct s" "set s = {c \<in> X. kf c = k}" by simp_all
    moreover from this obtain c where "c \<in> X" "kf c = k" by (cases s) auto
    ultimately show "k \<in> kf ` X \<and> distinct s \<and> set s = {c \<in> X. kf c = k} \<and> map_of bs k = Some s"
      using ms by auto
  next
    assume "k \<in> kf ` X \<and> distinct s \<and> set s = {c \<in> X. kf c = k} \<and> map_of bs k = Some s"
    with iff show "(k, s) \<in> set bs" by simp
  qed
qed

lemma buckets_of_covers:
  assumes "buckets_of kf X bs" and "c \<in> X"
  shows "\<exists>s. (kf c, s) \<in> set bs"
proof -
  from assms(1) have m: "case map_of bs (kf c) of
              None \<Rightarrow> kf c \<notin> kf ` X
            | Some s \<Rightarrow> s \<noteq> [] \<and> distinct s \<and> set s = {c' \<in> X. kf c' = kf c}"
    by (rule buckets_of_lookup)
  with assms(2) obtain s where "map_of bs (kf c) = Some s" by (cases "map_of bs (kf c)") auto
  then show ?thesis by (auto dest: map_of_SomeD)
qed


subsection \<open>The selection\<close>

lemma no_worse_refl: "no_worse x x"
  by (simp add: no_worse_def)

lemma no_worse_trans: "no_worse x y \<Longrightarrow> no_worse y z \<Longrightarrow> no_worse x z"
  unfolding no_worse_def by linarith

lemma no_worse_total: "\<not> no_worse x y \<Longrightarrow> no_worse y x"
  unfolding no_worse_def by linarith

lemma select_step_Some:
  "select_step y (Some k0, s0) =
     (if no_worse (k0, s0) y then (Some k0, s0) else (Some (fst y), snd y))"
proof -
  obtain h p pat s where y: "y = ((h, p, pat), s)" by (cases y) auto
  obtain bh bp bpat where k0: "k0 = (bh, bp, bpat)" by (cases k0) auto
  show ?thesis unfolding y k0 by (auto simp: no_worse_def)
qed

lemma select_step_None: "select_step y (None, s0) = (Some (fst y), snd y)"
  by (cases y) simp

lemma fold_select_step_best:
  "\<exists>k s. fold select_step bs (Some k0, s0) = (Some k, s) \<and>
         (k, s) \<in> insert (k0, s0) (set bs) \<and>
         no_worse (k, s) (k0, s0) \<and> (\<forall>y\<in>set bs. no_worse (k, s) y)"
proof (induction bs arbitrary: k0 s0)
  case Nil
  show ?case by (simp add: no_worse_refl)
next
  case (Cons y bs)
  show ?case
  proof (cases "no_worse (k0, s0) y")
    case True
    from Cons.IH[of k0 s0] obtain k s where
      r: "fold select_step bs (Some k0, s0) = (Some k, s)"
      and m: "(k, s) \<in> insert (k0, s0) (set bs)"
      and b0: "no_worse (k, s) (k0, s0)" and ball: "\<forall>z\<in>set bs. no_worse (k, s) z"
      by blast
    from b0 True have "no_worse (k, s) y" by (rule no_worse_trans)
    with r m b0 ball True show ?thesis by (auto simp: select_step_Some)
  next
    case False
    then have y0: "no_worse (fst y, snd y) (k0, s0)" by (simp add: no_worse_total)
    from Cons.IH[of "fst y" "snd y"] obtain k s where
      r: "fold select_step bs (Some (fst y), snd y) = (Some k, s)"
      and m: "(k, s) \<in> insert (fst y, snd y) (set bs)"
      and by': "no_worse (k, s) (fst y, snd y)" and ball: "\<forall>z\<in>set bs. no_worse (k, s) z"
      by blast
    from by' y0 have "no_worse (k, s) (k0, s0)" by (rule no_worse_trans)
    with r m by' ball False show ?thesis by (auto simp: select_step_Some)
  qed
qed

lemma select_best_optimal:
  assumes "bs \<noteq> []"
  shows "\<exists>k s. select_best bs = (Some k, s) \<and> (k, s) \<in> set bs \<and> (\<forall>y\<in>set bs. no_worse (k, s) y)"
proof -
  from assms obtain y bs' where bs: "bs = y # bs'" by (cases bs) auto
  from fold_select_step_best[of bs' "fst y" "snd y"] obtain k s where
    "fold select_step bs' (Some (fst y), snd y) = (Some k, s)"
    "(k, s) \<in> insert (fst y, snd y) (set bs')"
    "no_worse (k, s) (fst y, snd y)" "\<forall>z\<in>set bs'. no_worse (k, s) z"
    by blast
  then show ?thesis unfolding bs by (auto simp: select_best_def select_step_None)
qed


subsection \<open>The bucket the host keeps\<close>

lemma cheat_narrow_result:
  "partition_candidates (candidates s) word [] = Inr bs \<Longrightarrow>
   select_best bs = (Some (h, p, pat), best) \<Longrightarrow>
     \<exists>rr s'. cheat_narrow s word = (Inr rr, s') \<and> tokens rr = pat \<and> candidates s' = best"
  by (auto simp: cheat_narrow_def Let_def split: list.splits)

lemma key_of_eq:
  "score_guess c word = Inr pat \<Longrightarrow> score_guess c' word = Inr pat' \<Longrightarrow>
     (key_of word c' = key_of word c) = (pat' = pat)"
  by (auto simp: key_of_def pattern_key_def)

text \<open>
  C2: with no final answer resolved, a non-empty candidate set whose words have the length
  of the guess, and a guess in the word list, \<open>guess_word\<close> returns the pattern \<open>pat\<close> of
  the bucket it keeps: the new candidate set is exactly the set of candidates that score
  \<open>pat\<close> against the guess, it is not empty, its (hits, presents) pair is lexicographically
  at most that of every other candidate's pattern, and every bucket with the same pair has
  at most as many words.
\<close>

theorem C2_least_helpful_bucket:
  assumes nofinal: "final s = None" and nonempty: "candidates s \<noteq> []"
    and inlist: "normalize_str w \<in> set (word_list (cheat_cfg s))"
    and lens: "\<forall>c\<in>set (candidates s). length (normalize_str c) = length (normalize_str w)"
  shows "\<exists>pat rr s'. cheating_guess_word s w = (Inr rr, s') \<and> tokens rr = pat \<and>
     candidates s' \<noteq> [] \<and>
     set (candidates s') = {c \<in> set (candidates s). score_guess c w = Inr pat} \<and>
     (\<forall>c\<in>set (candidates s). \<forall>pat'. score_guess c w = Inr pat' \<longrightarrow>
        (count_list pat HIT < count_list pat' HIT \<or>
         (count_list pat HIT = count_list pat' HIT \<and>
          count_list pat PRESENT \<le> count_list pat' PRESENT)) \<and>
        (count_list pat' HIT = count_list pat HIT \<and>
         count_list pat' PRESENT = count_list pat PRESENT \<longrightarrow>
           card {c' \<in> set (candidates s). score_guess c' w = Inr pat'}
             \<le> card (set (candidates s'))))"
proof -
  define word where "word = normalize_str w"
  define X where "X = set (candidates s)"
  define bs where "bs = fold (\<lambda>c. setdefault_add (key_of word c) c) (candidates s) []"
  have sw: "score_guess c word = score_guess c w" for c
    unfolding word_def by (rule score_guess_norm_guess)
  have total: "\<forall>c\<in>set (candidates s). \<exists>pat. score_guess c word = Inr pat"
    using lens score_guess_total[of _ w] by (auto simp: sw)
  have part: "partition_candidates (candidates s) word [] = Inr bs"
    unfolding bs_def using total by (rule partition_candidates_fold)
  have bo: "buckets_of (key_of word) X bs"
    using buckets_of_fold[OF buckets_of_empty, of "key_of word" "candidates s"]
    by (simp add: bs_def X_def)
  from nonempty obtain c1 where c1: "c1 \<in> X" by (cases "candidates s") (auto simp: X_def)
  from buckets_of_covers[OF bo c1] have "bs \<noteq> []" by auto
  from select_best_optimal[OF this] obtain k best where
    sel: "select_best bs = (Some k, best)" and mem: "(k, best) \<in> set bs"
    and opt: "\<forall>y\<in>set bs. no_worse (k, best) y"
    by blast
  from mem bo have kX: "k \<in> key_of word ` X" and bset: "set best = {c \<in> X. key_of word c = k}"
    by (simp_all add: buckets_of_member)
  from kX obtain c0 where c0: "c0 \<in> X" and k0: "k = key_of word c0" by auto
  from total c0 obtain pat where p0: "score_guess c0 word = Inr pat" by (auto simp: X_def)
  with k0 have k: "k = (count_list pat HIT, count_list pat PRESENT, pat)"
    by (simp add: key_of_def pattern_key_def)
  have bucket: "{c \<in> X. key_of word c = key_of word c0} = {c \<in> X. score_guess c word = Inr pat'}"
    if "score_guess c0 word = Inr pat'" for c0 pat'
  proof -
    have "(key_of word c = key_of word c0) = (score_guess c word = Inr pat')" if "c \<in> X" for c
    proof -
      from total that obtain q where q: "score_guess c word = Inr q" by (auto simp: X_def)
      from key_of_eq[OF \<open>score_guess c0 word = Inr pat'\<close> q] q show ?thesis by simp
    qed
    then show ?thesis by auto
  qed
  from bset bucket[OF p0] k0 have best: "set best = {c \<in> X. score_guess c word = Inr pat}"
    by simp
  from c0 p0 best have bne: "best \<noteq> []" by auto
  from cheat_narrow_result[OF part sel[unfolded k]] obtain rr s' where
    res: "cheat_narrow s word = (Inr rr, s')" and tk: "tokens rr = pat" and cs': "candidates s' = best"
    by blast
  have call: "cheating_guess_word s w = (Inr rr, s')"
    using inlist nofinal res by (simp add: cheating_guess_word_def word_def)
  have optimal:
    "(count_list pat HIT < count_list pat' HIT \<or>
         (count_list pat HIT = count_list pat' HIT \<and>
          count_list pat PRESENT \<le> count_list pat' PRESENT)) \<and>
        (count_list pat' HIT = count_list pat HIT \<and>
         count_list pat' PRESENT = count_list pat PRESENT \<longrightarrow>
           card {c' \<in> X. score_guess c' word = Inr pat'} \<le> card (set best))"
    if cX: "c \<in> X" and sc: "score_guess c word = Inr pat'" for c pat'
  proof -
    from buckets_of_covers[OF bo cX] obtain sc' where m': "(key_of word c, sc') \<in> set bs" by blast
    with bo have d': "distinct sc'" and set': "set sc' = {c' \<in> X. key_of word c' = key_of word c}"
      by (simp_all add: buckets_of_member)
    from set' bucket[OF sc] have set'': "set sc' = {c' \<in> X. score_guess c' word = Inr pat'}"
      by simp
    from mem bo have db: "distinct best" by (simp add: buckets_of_member)
    from sc have kc: "key_of word c = (count_list pat' HIT, count_list pat' PRESENT, pat')"
      by (simp add: key_of_def pattern_key_def)
    from opt m' have "no_worse (k, best) (key_of word c, sc')" by blast
    then have nw: "count_list pat HIT < count_list pat' HIT \<or>
      (count_list pat HIT = count_list pat' HIT \<and>
       (count_list pat PRESENT < count_list pat' PRESENT \<or>
        (count_list pat PRESENT = count_list pat' PRESENT \<and> length sc' \<le> length best)))"
      by (simp add: no_worse_def k kc)
    have l1: "length sc' = card {c' \<in> X. score_guess c' word = Inr pat'}"
      using d' set'' by (metis distinct_card)
    have l2: "length best = card (set best)"
      using db by (simp add: distinct_card)
    from nw show ?thesis unfolding l1[symmetric] l2[symmetric] by linarith
  qed
  have "tokens rr = pat \<and> candidates s' \<noteq> [] \<and>
     set (candidates s') = {c \<in> set (candidates s). score_guess c w = Inr pat} \<and>
     (\<forall>c\<in>set (candidates s). \<forall>pat'. score_guess c w = Inr pat' \<longrightarrow>
        (count_list pat HIT < count_list pat' HIT \<or>
         (count_list pat HIT = count_list pat' HIT \<and>
          count_list pat PRESENT \<le> count_list pat' PRESENT)) \<and>
        (count_list pat' HIT = count_list pat HIT \<and>
         count_list pat' PRESENT = count_list pat PRESENT \<longrightarrow>
           card {c' \<in> set (candidates s). score_guess c' w = Inr pat'}
             \<le> card (set (candidates s'))))"
    using tk bne best optimal unfolding cs' X_def sw by blast
  with call show ?thesis by blast
qed


text \<open>
  C2 at the guess \<open>ab\<close> on the word list \<open>ab, cd, ef, ba\<close>: the buckets are \<open>{ab}\<close> with
  two hits, \<open>{cd, ef}\<close> with nothing and \<open>{ba}\<close> with two presents.
\<close>

theorem C2_least_helpful_bucket_witness:
  "final (CheatingWordleGame_init \<lparr>max_rounds = 6, word_list = [''ab'', ''cd'', ''ef'', ''ba'']\<rparr>) = None \<and>
   candidates (CheatingWordleGame_init \<lparr>max_rounds = 6, word_list = [''ab'', ''cd'', ''ef'', ''ba'']\<rparr>) \<noteq> [] \<and>
   normalize_str ''ab'' \<in> set (word_list (cheat_cfg
      (CheatingWordleGame_init \<lparr>max_rounds = 6, word_list = [''ab'', ''cd'', ''ef'', ''ba'']\<rparr>))) \<and>
   list_all (\<lambda>c. length (normalize_str c) = length (normalize_str ''ab''))
      (candidates (CheatingWordleGame_init \<lparr>max_rounds = 6, word_list = [''ab'', ''cd'', ''ef'', ''ba'']\<rparr>)) \<and>
   (\<exists>pat rr s'.
      cheating_guess_word
        (CheatingWordleGame_init \<lparr>max_rounds = 6, word_list = [''ab'', ''cd'', ''ef'', ''ba'']\<rparr>) ''ab''
        = (Inr rr, s') \<and>
      tokens rr = pat \<and> candidates s' \<noteq> [] \<and>
      set (candidates s') =
        {c \<in> set (candidates (CheatingWordleGame_init
                \<lparr>max_rounds = 6, word_list = [''ab'', ''cd'', ''ef'', ''ba'']\<rparr>)).
           score_guess c ''ab'' = Inr pat} \<and>
      (\<forall>c\<in>set (candidates (CheatingWordleGame_init
                \<lparr>max_rounds = 6, word_list = [''ab'', ''cd'', ''ef'', ''ba'']\<rparr>)).
         \<forall>pat'. score_guess c ''ab'' = Inr pat' \<longrightarrow>
           (count_list pat HIT < count_list pat' HIT \<or>
            (count_list pat HIT = count_list pat' HIT \<and>
             count_list pat PRESENT \<le> count_list pat' PRESENT)) \<and>
           (count_list pat' HIT = count_list pat HIT \<and>
            count_list pat' PRESENT = count_list pat PRESENT \<longrightarrow>
              card {c' \<in> set (candidates (CheatingWordleGame_init
                      \<lparr>max_rounds = 6, word_list = [''ab'', ''cd'', ''ef'', ''ba'']\<rparr>)).
                    score_guess c' ''ab'' = Inr pat'}
                \<le> card (set (candidates s')))))"
proof -
  let ?s = "CheatingWordleGame_init \<lparr>max_rounds = 6, word_list = [''ab'', ''cd'', ''ef'', ''ba'']\<rparr>"
  have h1: "final ?s = None" by code_simp
  have h2: "candidates ?s \<noteq> []" by code_simp
  have h3: "normalize_str ''ab'' \<in> set (word_list (cheat_cfg ?s))" by code_simp
  have h4: "list_all (\<lambda>c. length (normalize_str c) = length (normalize_str ''ab'')) (candidates ?s)"
    by code_simp
  then have h4': "\<forall>c\<in>set (candidates ?s). length (normalize_str c) = length (normalize_str ''ab'')"
    by (simp add: list_all_iff)
  show ?thesis
    using h1 h2 h3 h4 C2_least_helpful_bucket[OF h1 h2 h3 h4'] by blast
qed

end
